theory Spec2Isabelle
  imports Main "HOL-Library.AList" "HOL-Library.Sublist"
begin

section \<open>Python values and exceptions\<close>

text \<open>
  The fields typed \<open>Any\<close> in the source (a message's content, the values of its context,
  what an agent's \<open>process\<close> returns) hold Python values. \<open>truthy\<close> is Python's truth
  test, which \<open>route_message\<close> applies to \<open>context.get("requires_response", False)\<close>.
\<close>

datatype pyval =
    PNone
  | PBool bool
  | PInt int
  | PStr string
  | PList "pyval list"
  | PDict "(string \<times> pyval) list"

fun truthy :: "pyval \<Rightarrow> bool" where
  "truthy PNone = False"
| "truthy (PBool b) = b"
| "truthy (PInt i) = (i \<noteq> 0)"
| "truthy (PStr s) = (s \<noteq> [])"
| "truthy (PList xs) = (xs \<noteq> [])"
| "truthy (PDict kvs) = (kvs \<noteq> [])"

text \<open>
  Instances of Python's \<open>Exception\<close>, with their message: the errors an agent raises, and
  the \<open>ValueError\<close> of \<open>asyncio.Queue.task_done\<close>. A call returns \<open>Inr\<close> its result or
  raises, \<open>Inl\<close> the exception.
\<close>

datatype exn = Exception string | ValueError string

text \<open>\<open>d.get(k, default)\<close> on a dictionary.\<close>

definition dict_get :: "('k \<rightharpoonup> 'v) \<Rightarrow> 'k \<Rightarrow> 'v \<Rightarrow> 'v" where
  "dict_get d k dflt = (case d k of None \<Rightarrow> dflt | Some v \<Rightarrow> v)"

section \<open>core/base\_agent.py\<close>

record AgentConfig =
  name :: string
  description :: string
  version :: string
  capabilities :: "string list"

text \<open>
  \<open>BaseAgent\<close> is abstract: a concrete agent supplies \<open>process\<close> and \<open>handle_error\<close>,
  and may override \<open>get_capabilities\<close> (as \<open>DataAgent\<close>, \<open>APIAgent\<close> and
  \<open>AnalysisAgent\<close> do, with lists that do not read \<open>config.capabilities\<close>).
  An agent is its configuration, the behaviour of the two coroutines, each of which returns
  or raises, and the list that its method \<open>get_capabilities\<close> returns. What a call does
  depends on its argument only, and a call runs to its end before the coroutine that awaits
  it goes on.
\<close>

record BaseAgent =
  config :: AgentConfig
  process :: "pyval \<Rightarrow> exn + pyval"
  handle_error :: "exn \<Rightarrow> exn + unit"
  get_capabilities :: "string list"

text \<open>
  The method \<open>get_capabilities\<close> of \<open>BaseAgent\<close> itself, which an agent that does not
  override it inherits: it returns \<open>self.config.capabilities\<close>.
\<close>

definition BaseAgent_get_capabilities :: "AgentConfig \<Rightarrow> string list" where
  "BaseAgent_get_capabilities cfg = capabilities cfg"

section \<open>core/coordinator.py\<close>

text \<open>The field \<open>context\<close> is written \<open>msg_context\<close>.\<close>

record Message =
  sender :: string
  receiver :: string
  content :: pyval
  message_type :: string
  msg_context :: "string \<rightharpoonup> pyval"

text \<open>
  The calls the coordinator makes and receives, in the order they happen: \<open>Send m\<close> for a
  call of \<open>send_message\<close>, \<open>Route m\<close> for a call of \<open>route_message\<close>, \<open>Process a v\<close> and
  \<open>HandleError a e\<close> for the calls of an agent's coroutines, \<open>Print s\<close> for console output.
\<close>

datatype event =
    Send Message
  | Route Message
  | Process BaseAgent pyval
  | HandleError BaseAgent exn
  | Print string

text \<open>
  \<open>agents\<close> is a Python dictionary, whose iteration order is the order in which its keys
  were first inserted: an association list, updated with \<open>AList.update\<close> (which replaces
  the value of a key that is present where it stands, and appends a new key).
  \<open>message_queue\<close> and \<open>unfinished_tasks\<close> are the items and the counter of the
  unbounded \<open>asyncio.Queue\<close>; \<open>running\<close> is \<open>_running\<close>. \<open>trace\<close> is the log of calls,
  an observation that no code reads.
\<close>

record AgentCoordinator =
  agents :: "(string \<times> BaseAgent) list"
  message_queue :: "Message list"
  unfinished_tasks :: nat
  running :: bool
  trace :: "event list"

definition AgentCoordinator_init :: AgentCoordinator where
  "AgentCoordinator_init =
     \<lparr>agents = [], message_queue = [], unfinished_tasks = 0, running = False, trace = []\<rparr>"

definition register_agent :: "BaseAgent \<Rightarrow> AgentCoordinator \<Rightarrow> AgentCoordinator" where
  "register_agent agent c = c\<lparr>agents := AList.update (name (config agent)) agent (agents c)\<rparr>"

text \<open>\<open>Queue.put\<close> on a queue without a bound: appends and counts the item, never waits.\<close>

definition send_message :: "Message \<Rightarrow> AgentCoordinator \<Rightarrow> AgentCoordinator" where
  "send_message m c =
     c\<lparr>message_queue := message_queue c @ [m],
       unfinished_tasks := Suc (unfinished_tasks c),
       trace := trace c @ [Send m]\<rparr>"

definition response :: "Message \<Rightarrow> pyval \<Rightarrow> Message" where
  "response m result =
     \<lparr>sender = receiver m, receiver = sender m, content = result,
      message_type = ''response'', msg_context = msg_context m\<rparr>"

text \<open>
  \<open>route_message\<close> returns \<open>Inr ()\<close> or the exception that leaves it, and the coordinator
  as the call left it.
\<close>

definition route_message :: "Message \<Rightarrow> AgentCoordinator \<Rightarrow> (exn + unit) \<times> AgentCoordinator" where
  "route_message m c0 =
     (let c = c0\<lparr>trace := trace c0 @ [Route m]\<rparr> in
      case map_of (agents c) (receiver m) of
        Some rcv \<Rightarrow>
          (let c1 = c\<lparr>trace := trace c @ [Process rcv (content m)]\<rparr> in
           case process rcv (content m) of
             Inr result \<Rightarrow>
               if truthy (dict_get (msg_context m) ''requires_response'' (PBool False))
               then (Inr (), send_message (response m result) c1)
               else (Inr (), c1)
           | Inl e \<Rightarrow>
               (let c2 = c1\<lparr>trace := trace c1 @ [HandleError rcv e]\<rparr> in
                case handle_error rcv e of
                  Inr u \<Rightarrow> (Inr (), c2)
                | Inl e' \<Rightarrow> (Inl e', c2)))
      | None \<Rightarrow>
          (Inr (), c\<lparr>trace := trace c @ [Print (''No agent found for receiver: '' @ receiver m)]\<rparr>))"

text \<open>\<open>Queue.task_done\<close>: raises when there is no unfinished item, else counts one down.\<close>

definition task_done :: "AgentCoordinator \<Rightarrow> exn + AgentCoordinator" where
  "task_done c =
     (if unfinished_tasks c = 0 then Inl (ValueError ''task_done() called too many times'')
      else Inr (c\<lparr>unfinished_tasks := unfinished_tasks c - 1\<rparr>))"

text \<open>
  The coroutine \<open>start\<close>, as the task that runs it: where the task stands, and one step of
  it. \<open>Created\<close> is the task before its body runs, \<open>LoopHead\<close> the test of
  \<open>while self._running\<close>, \<open>InGet\<close> the call \<open>await self.message_queue.get()\<close>,
  \<open>Returned\<close> and \<open>Raised e\<close> the finished task. \<open>Queue.get\<close> suspends the task while the
  queue is empty and, once an item is there, resumes inside \<open>get\<close>: the step from \<open>InGet\<close>
  is \<open>None\<close> on an empty queue, and otherwise takes the first item, routes it and calls
  \<open>task_done\<close>, without reading \<open>_running\<close> in between.
\<close>

datatype pc = Created | LoopHead | InGet | Returned | Raised exn

fun start_step :: "pc \<times> AgentCoordinator \<Rightarrow> (pc \<times> AgentCoordinator) option" where
  "start_step (Created, c) = Some (LoopHead, c\<lparr>running := True\<rparr>)"
| "start_step (LoopHead, c) = Some (if running c then InGet else Returned, c)"
| "start_step (InGet, c) =
     (case message_queue c of
        [] \<Rightarrow> None
      | m # q \<Rightarrow>
          (case route_message m (c\<lparr>message_queue := q\<rparr>) of
             (Inl e, c') \<Rightarrow> Some (Raised e, c')
           | (Inr u, c') \<Rightarrow>
               (case task_done c' of
                  Inl e \<Rightarrow> Some (Raised e, c')
                | Inr c'' \<Rightarrow> Some (LoopHead, c''))))"
| "start_step (Returned, c) = None"
| "start_step (Raised e, c) = None"

text \<open>The task after at most \<open>n\<close> steps; it stays where no step is possible.\<close>

fun run_start :: "nat \<Rightarrow> pc \<times> AgentCoordinator \<Rightarrow> pc \<times> AgentCoordinator" where
  "run_start 0 s = s"
| "run_start (Suc n) s = (case start_step s of None \<Rightarrow> s | Some s' \<Rightarrow> run_start n s')"

definition stop :: "AgentCoordinator \<Rightarrow> AgentCoordinator" where
  "stop c = c\<lparr>running := False\<rparr>"

text \<open>
  The dictionary comprehension of \<open>get_agent_capabilities\<close> inserts one entry per item of
  \<open>agents\<close>, in iteration order.
\<close>

definition get_agent_capabilities :: "AgentCoordinator \<Rightarrow> (string \<times> string list) list" where
  "get_agent_capabilities c =
     fold (\<lambda>(n, agent) d. AList.update n (get_capabilities agent) d) (agents c) []"

text \<open>
  \<open>delegate_task\<close> walks \<open>agents.values()\<close> and returns at the first agent that lists
  \<open>task_type\<close>; the coordinator is returned with the result, as the call left it.
\<close>

fun first_capable :: "string \<Rightarrow> BaseAgent list \<Rightarrow> BaseAgent option" where
  "first_capable task_type [] = None"
| "first_capable task_type (agent # rest) =
     (if task_type \<in> set (get_capabilities agent) then Some agent
      else first_capable task_type rest)"

definition delegate_task ::
  "pyval \<Rightarrow> string \<Rightarrow> AgentCoordinator \<Rightarrow> BaseAgent option \<times> AgentCoordinator" where
  "delegate_task task task_type c = (first_capable task_type (map snd (agents c)), c)"

text \<open>
  A \<open>Workflow\<close> holds a reference to its coordinator; \<open>execute\<close> takes the coordinator's
  state and returns it with the list \<open>results\<close>.
\<close>

record Workflow =
  steps :: "Message list"
  results :: "pyval list"

definition Workflow_init :: Workflow where
  "Workflow_init = \<lparr>steps = [], results = []\<rparr>"

definition add_step :: "Message \<Rightarrow> Workflow \<Rightarrow> Workflow" where
  "add_step m w = w\<lparr>steps := steps w @ [m]\<rparr>"

definition execute :: "Workflow \<Rightarrow> AgentCoordinator \<Rightarrow> pyval list \<times> AgentCoordinator" where
  "execute w c = (results w, fold send_message (steps w) c)"

section \<open>Observations and registration sequences\<close>

text \<open>The messages passed to \<open>send_message\<close> and to \<open>route_message\<close>, read off a trace.\<close>

fun sent :: "event list \<Rightarrow> Message list" where
  "sent [] = []"
| "sent (Send m # es) = m # sent es"
| "sent (e # es) = sent es"

fun routed :: "event list \<Rightarrow> Message list" where
  "routed [] = []"
| "routed (Route m # es) = m # routed es"
| "routed (e # es) = routed es"

text \<open>
  \<open>registered as\<close> is a new coordinator after the calls \<open>register_agent(a)\<close> for the
  agents \<open>a\<close> of \<open>as\<close>, in this order. For such a sequence of calls, \<open>names_of\<close> lists
  the names registered, \<open>latest n\<close> is the agent of the last call under the name \<open>n\<close>,
  \<open>first_registered\<close> keeps of a list of names the first occurrence of each, and
  \<open>survivors\<close> are the agents that no later call replaced, in the order of their calls.
\<close>

definition registered :: "BaseAgent list \<Rightarrow> AgentCoordinator" where
  "registered as = fold register_agent as AgentCoordinator_init"

definition names_of :: "BaseAgent list \<Rightarrow> string list" where
  "names_of as = map (\<lambda>a. name (config a)) as"

definition latest :: "string \<Rightarrow> BaseAgent list \<Rightarrow> BaseAgent option" where
  "latest n as = List.find (\<lambda>a. name (config a) = n) (rev as)"

definition first_registered :: "string list \<Rightarrow> string list" where
  "first_registered ns = rev (remdups (rev ns))"

fun survivors :: "BaseAgent list \<Rightarrow> BaseAgent list" where
  "survivors [] = []"
| "survivors (a # as) =
     (if name (config a) \<in> set (names_of as) then survivors as else a # survivors as)"

section \<open>Example agents and messages\<close>

text \<open>
  \<open>worker n caps\<close> returns its input, as the agent \<open>echo\<close> does, and inherits
  \<open>get_capabilities\<close>; \<open>overriding n caps own\<close> is configured with the capabilities
  \<open>caps\<close> and overrides \<open>get_capabilities\<close> to return \<open>own\<close>; \<open>failing_agent\<close> raises
  in \<open>process\<close>; \<open>broken_agent\<close> raises in \<open>process\<close> and in \<open>handle_error\<close>.
\<close>

definition worker :: "string \<Rightarrow> string list \<Rightarrow> BaseAgent" where
  "worker n caps =
     \<lparr>config = \<lparr>name = n, description = ''returns its input'', version = ''0.1.0'',
                capabilities = caps\<rparr>,
      process = (\<lambda>v. Inr v),
      handle_error = (\<lambda>e. Inr ()),
      get_capabilities =
        BaseAgent_get_capabilities
          \<lparr>name = n, description = ''returns its input'', version = ''0.1.0'',
            capabilities = caps\<rparr>\<rparr>"

definition overriding :: "string \<Rightarrow> string list \<Rightarrow> string list \<Rightarrow> BaseAgent" where
  "overriding n caps own =
     \<lparr>config = \<lparr>name = n, description = ''overrides get_capabilities'', version = ''0.1.0'',
                capabilities = caps\<rparr>,
      process = (\<lambda>v. Inr v),
      handle_error = (\<lambda>e. Inr ()),
      get_capabilities = own\<rparr>"

definition echo_agent :: BaseAgent where
  "echo_agent = worker ''echo'' [''echo'']"

definition failing_agent :: BaseAgent where
  "failing_agent =
     \<lparr>config = \<lparr>name = ''failing'', description = ''process raises'', version = ''0.1.0'',
                capabilities = [''fail'']\<rparr>,
      process = (\<lambda>v. Inl (Exception ''boom'')),
      handle_error = (\<lambda>e. Inr ()),
      get_capabilities = [''fail'']\<rparr>"

definition broken_agent :: BaseAgent where
  "broken_agent =
     \<lparr>config = \<lparr>name = ''broken'', description = ''process and handle_error raise'',
                version = ''0.1.0'', capabilities = [''fail'']\<rparr>,
      process = (\<lambda>v. Inl (Exception ''boom'')),
      handle_error = (\<lambda>e. Inl (Exception ''handler failed'')),
      get_capabilities = [''fail'']\<rparr>"

definition request :: "string \<Rightarrow> Message" where
  "request r =
     \<lparr>sender = ''t'', receiver = r, content = PStr ''hi'', message_type = ''process'',
      msg_context = [''requires_response'' \<mapsto> PBool True]\<rparr>"

definition notice :: "string \<Rightarrow> Message" where
  "notice r =
     \<lparr>sender = ''t'', receiver = r, content = PStr ''hi'', message_type = ''process'',
      msg_context = Map.empty\<rparr>"

definition bus :: AgentCoordinator where
  "bus = registered [echo_agent, failing_agent, broken_agent]"

section \<open>Auxiliary facts\<close>

lemma sent_append: "sent (es @ fs) = sent es @ sent fs"
  by (induction es rule: sent.induct) simp_all

lemma routed_append: "routed (es @ fs) = routed es @ routed fs"
  by (induction es rule: routed.induct) simp_all

lemma fold_send_message:
  "fold send_message ms c =
     c\<lparr>message_queue := message_queue c @ ms,
       unfinished_tasks := unfinished_tasks c + length ms,
       trace := trace c @ map Send ms\<rparr>"
  by (induction ms arbitrary: c) (simp_all add: send_message_def)

lemma fold_add_step: "fold add_step ms w = w\<lparr>steps := steps w @ ms\<rparr>"
  by (induction ms arbitrary: w) (simp_all add: add_step_def)

lemma registered_snoc: "registered (as @ [a]) = register_agent a (registered as)"
  by (simp add: registered_def)

lemma registered_Nil: "agents (registered []) = []"
  by (simp add: registered_def AgentCoordinator_init_def)

lemma first_registered_snoc:
  "first_registered (ns @ [n]) =
     (if n \<in> set ns then first_registered ns else first_registered ns @ [n])"
  by (simp add: first_registered_def)

lemma keys_registered: "map fst (agents (registered as)) = first_registered (names_of as)"
proof (induction as rule: rev_induct)
  case Nil
  show ?case by (simp add: registered_Nil names_of_def first_registered_def)
next
  case (snoc a as)
  have "set (first_registered (names_of as)) = set (names_of as)"
    by (simp add: first_registered_def)
  with snoc show ?case
    by (simp add: registered_snoc register_agent_def update_keys names_of_def
        first_registered_snoc)
qed

lemma distinct_keys_registered: "distinct (map fst (agents (registered as)))"
  by (simp add: keys_registered first_registered_def)

lemma lookup_registered: "map_of (agents (registered as)) n = latest n as"
proof (induction as rule: rev_induct)
  case Nil
  show ?case by (simp add: registered_Nil latest_def)
next
  case (snoc a as)
  then show ?case
    by (simp add: registered_snoc register_agent_def update_conv' latest_def)
qed

lemma keys_fold_update:
  "distinct (map fst d) \<Longrightarrow>
   distinct (map fst (fold (\<lambda>(n, agent) d. AList.update n (get_capabilities agent) d) al d))"
  by (induction al arbitrary: d) (auto simp: distinct_update)

lemma map_of_fold_update:
  "distinct (map fst al) \<Longrightarrow>
   map_of (fold (\<lambda>(n, agent) d. AList.update n (get_capabilities agent) d) al d) k =
     (case map_of al k of None \<Rightarrow> map_of d k | Some a \<Rightarrow> Some (get_capabilities a))"
proof (induction al arbitrary: d)
  case Nil
  show ?case by simp
next
  case (Cons p al)
  obtain n a where p: "p = (n, a)" by (cases p)
  from Cons.prems p have "map_of al n = None"
    by (simp add: map_of_eq_None_iff)
  with Cons p show ?case
    by (auto simp: update_conv' split: option.splits)
qed

lemma map_filter_agree:
  "(\<And>x. x \<in> set xs \<Longrightarrow> f x = g x) \<Longrightarrow> List.map_filter f xs = List.map_filter g xs"
proof (induction xs)
  case Nil
  show ?case by simp
next
  case (Cons x xs)
  then have "f x = g x" and "List.map_filter f xs = List.map_filter g xs"
    by simp_all
  then show ?case by (simp split: option.splits)
qed

lemma values_of_distinct:
  "distinct (map fst al) \<Longrightarrow> map snd al = List.map_filter (map_of al) (map fst al)"
proof (induction al)
  case Nil
  show ?case by simp
next
  case (Cons p al)
  obtain k v where p: "p = (k, v)" by (cases p)
  from Cons.prems p have k: "k \<notin> set (map fst al)" by simp
  have "List.map_filter (\<lambda>a. if a = k then Some v else map_of al a) (map fst al) =
        List.map_filter (map_of al) (map fst al)"
    using k by (intro map_filter_agree) auto
  with Cons p show ?case
    by simp
qed

lemma count_entries:
  "distinct (map fst al) \<Longrightarrow> length (filter (\<lambda>p. fst p = k) al) = (if k \<in> fst ` set al then 1 else 0)"
  by (induction al) (auto simp: image_iff)

lemma first_capable_find:
  "first_capable tag as = List.find (\<lambda>a. tag \<in> set (get_capabilities a)) as"
  by (induction as) simp_all

lemma first_capable_None:
  "(first_capable tag as = None) = (\<forall>a \<in> set as. tag \<notin> set (get_capabilities a))"
  by (induction as) simp_all

lemma first_registered_distinct: "distinct ns \<Longrightarrow> first_registered ns = ns"
  by (simp add: first_registered_def distinct_remdups_id)

lemma latest_distinct:
  "distinct (names_of as) \<Longrightarrow> List.map_filter (\<lambda>n. latest n as) (names_of as) = as"
proof (induction as rule: rev_induct)
  case Nil
  show ?case by (simp add: names_of_def)
next
  case (snoc a as)
  from snoc.prems have d: "distinct (names_of as)" and notin: "name (config a) \<notin> set (names_of as)"
    by (simp_all add: names_of_def)
  have "List.map_filter (\<lambda>n. latest n (as @ [a])) (names_of as) =
        List.map_filter (\<lambda>n. latest n as) (names_of as)"
    using notin by (intro map_filter_agree) (auto simp: latest_def)
  with snoc.IH [OF d] show ?case
    by (simp add: names_of_def List.map_filter_def latest_def)
qed

lemma route_message_routed:
  "routed (trace (snd (route_message m c))) = routed (trace c) @ [m]"
  by (auto simp: route_message_def send_message_def Let_def routed_append
      split: sum.splits option.splits)

lemma route_message_queue:
  "\<exists>r. message_queue (snd (route_message m c)) = message_queue c @ r"
  by (auto simp: route_message_def send_message_def Let_def split: sum.splits option.splits)

lemma route_message_running: "running (snd (route_message m c)) = running c"
  by (auto simp: route_message_def send_message_def Let_def split: sum.splits option.splits)

lemma start_step_effect:
  assumes "start_step (p, c) = Some (p', c')"
  shows "(routed (trace c') = routed (trace c) \<and> message_queue c' = message_queue c)
         \<or> (\<exists>m q r. message_queue c = m # q \<and> routed (trace c') = routed (trace c) @ [m]
               \<and> message_queue c' = q @ r)"
proof (cases p)
  case InGet
  with assms obtain m q where mq: "message_queue c = m # q"
    by (cases "message_queue c") auto
  obtain res c1 where r: "route_message m (c\<lparr>message_queue := q\<rparr>) = (res, c1)"
    by (cases "route_message m (c\<lparr>message_queue := q\<rparr>)")
  from route_message_routed [of m "c\<lparr>message_queue := q\<rparr>"] r
  have t: "routed (trace c1) = routed (trace c) @ [m]" by simp
  from route_message_queue [of m "c\<lparr>message_queue := q\<rparr>"] r
  obtain rs where qs: "message_queue c1 = q @ rs" by auto
  from assms InGet mq r have "routed (trace c') = routed (trace c1) \<and> message_queue c' = message_queue c1"
    by (auto simp: task_done_def split: sum.splits if_splits)
  with t qs mq show ?thesis by auto
qed (use assms in \<open>auto split: if_splits\<close>)

lemma run_start_fifo:
  "\<exists>d. routed (trace (snd (run_start n (p, c)))) = routed (trace c) @ d
       \<and> (prefix d (message_queue c) \<or> prefix (message_queue c) d)"
proof (induction n arbitrary: p c)
  case 0
  show ?case by simp
next
  case (Suc n)
  show ?case
  proof (cases "start_step (p, c)")
    case None
    then show ?thesis by simp
  next
    case (Some s)
    obtain p1 c1 where s: "s = (p1, c1)" by (cases s)
    from Suc.IH [of p1 c1] obtain d where
      d: "routed (trace (snd (run_start n (p1, c1)))) = routed (trace c1) @ d"
      and cmp: "prefix d (message_queue c1) \<or> prefix (message_queue c1) d"
      by blast
    from start_step_effect [of p c p1 c1] Some s
    consider (same) "routed (trace c1) = routed (trace c)" "message_queue c1 = message_queue c"
      | (took) m q r where "message_queue c = m # q" "routed (trace c1) = routed (trace c) @ [m]"
          "message_queue c1 = q @ r"
      by auto
    then show ?thesis
    proof cases
      case same
      with d cmp Some s show ?thesis by auto
    next
      case took
      from cmp took(3) have "prefix d q \<or> prefix q d"
        using prefix_same_cases [of d "q @ r" q] append_prefixD [of q r d]
        by auto
      with took(1) have "prefix (m # d) (message_queue c) \<or> prefix (message_queue c) (m # d)"
        by simp
      moreover from d took(2) Some s
      have "routed (trace (snd (run_start (Suc n) (p, c)))) = routed (trace c) @ (m # d)"
        by simp
      ultimately show ?thesis by blast
    qed
  qed
qed

lemma run_start_Raised: "run_start n (Raised e, c) = (Raised e, c)"
  by (induction n) simp_all

lemma run_start_InGet_empty: "message_queue c = [] \<Longrightarrow> run_start n (InGet, c) = (InGet, c)"
  by (induction n) simp_all

lemma run_start_iterations:
  "running c \<Longrightarrow> run_start (2 * k) (LoopHead, c) = (LoopHead, c') \<Longrightarrow>
   length (routed (trace c')) = length (routed (trace c)) + k"
proof (induction k arbitrary: c)
  case 0
  then show ?case by simp
next
  case (Suc k)
  from Suc.prems have run: "run_start (Suc (2 * k)) (InGet, c) = (LoopHead, c')"
    by simp
  show ?case
  proof (cases "message_queue c")
    case Nil
    with run show ?thesis by simp
  next
    case (Cons m q)
    obtain res c1 where r: "route_message m (c\<lparr>message_queue := q\<rparr>) = (res, c1)"
      by (cases "route_message m (c\<lparr>message_queue := q\<rparr>)")
    from route_message_routed [of m "c\<lparr>message_queue := q\<rparr>"] r
    have t: "routed (trace c1) = routed (trace c) @ [m]" by simp
    from route_message_running [of m "c\<lparr>message_queue := q\<rparr>"] r Suc.prems(1)
    have run1: "running c1" by simp
    from run Cons r obtain c2 where c2: "task_done c1 = Inr c2"
      and run2: "run_start (2 * k) (LoopHead, c2) = (LoopHead, c')"
      by (auto simp: run_start_Raised split: sum.splits)
    from c2 run1 t have "running c2" "routed (trace c2) = routed (trace c) @ [m]"
      by (auto simp: task_done_def split: if_splits)
    with Suc.IH [OF _ run2] show ?thesis by simp
  qed
qed

lemma worker_name: "name (config (worker n caps)) = n"
  by (simp add: worker_def)

lemma worker_capabilities: "get_capabilities (worker n caps) = caps"
  by (simp add: worker_def BaseAgent_get_capabilities_def)

lemma overriding_fields:
  "name (config (overriding n caps own)) = n"
  "capabilities (config (overriding n caps own)) = caps"
  "get_capabilities (overriding n caps own) = own"
  by (simp_all add: overriding_def)

lemma keys_capabilities:
  "distinct (map fst (get_agent_capabilities c))"
  unfolding get_agent_capabilities_def by (rule keys_fold_update) simp

lemma lookup_capabilities:
  "distinct (map fst (agents c)) \<Longrightarrow>
   map_of (get_agent_capabilities c) n = map_option get_capabilities (map_of (agents c) n)"
  by (simp add: get_agent_capabilities_def map_of_fold_update split: option.splits)

lemma latest_None: "(latest n as = None) = (n \<notin> set (names_of as))"
  by (auto simp: latest_def names_of_def find_None_iff)

lemma key_in_iff: "(k \<in> fst ` set al) = (map_of al k \<noteq> None)"
  by (simp add: map_of_eq_None_iff)

lemma agents_bus:
  "agents bus = [(''echo'', echo_agent), (''failing'', failing_agent), (''broken'', broken_agent)]"
  by (simp add: bus_def registered_def register_agent_def AgentCoordinator_init_def
      echo_agent_def worker_def failing_agent_def broken_agent_def)

lemma bus_fields:
  "message_queue bus = []" "unfinished_tasks bus = 0" "trace bus = []" "running bus = False"
  by (simp_all add: bus_def registered_def register_agent_def AgentCoordinator_init_def)

lemma bus_lookup:
  "map_of (agents bus) ''echo'' = Some echo_agent"
  "map_of (agents bus) ''failing'' = Some failing_agent"
  "map_of (agents bus) ''broken'' = Some broken_agent"
  "map_of (agents bus) ''nobody'' = None"
  by (simp_all add: agents_bus)

text \<open>
  Every queued item was counted by \<open>put\<close>: sending and the steps of the loop keep the
  queue no longer than \<open>unfinished_tasks\<close>, so \<open>task_done\<close> finds an item to count down.
\<close>

lemma send_message_counted:
  "length (message_queue c) \<le> unfinished_tasks c \<Longrightarrow>
   length (message_queue (send_message m c)) \<le> unfinished_tasks (send_message m c)"
  by (simp add: send_message_def)

lemma route_message_counted:
  "length (message_queue c) < unfinished_tasks c \<Longrightarrow>
   length (message_queue (snd (route_message m c))) < unfinished_tasks (snd (route_message m c))"
  by (auto simp: route_message_def send_message_def Let_def split: sum.splits option.splits)

lemma start_step_counted:
  assumes "start_step (p, c) = Some (p', c')"
    and "length (message_queue c) \<le> unfinished_tasks c"
  shows "length (message_queue c') \<le> unfinished_tasks c'"
proof (cases p)
  case InGet
  with assms obtain m q where mq: "message_queue c = m # q"
    by (cases "message_queue c") auto
  obtain res c1 where r: "route_message m (c\<lparr>message_queue := q\<rparr>) = (res, c1)"
    by (cases "route_message m (c\<lparr>message_queue := q\<rparr>)")
  from route_message_counted [of "c\<lparr>message_queue := q\<rparr>" m] assms(2) mq r
  have "length (message_queue c1) < unfinished_tasks c1" by simp
  with assms(1) InGet mq r show ?thesis
    by (auto simp: task_done_def split: sum.splits if_splits)
qed (use assms in \<open>auto split: if_splits\<close>)

lemma run_start_counted:
  "length (message_queue c) \<le> unfinished_tasks c \<Longrightarrow>
   length (message_queue (snd (run_start n (p, c)))) \<le> unfinished_tasks (snd (run_start n (p, c)))"
proof (induction n arbitrary: p c)
  case 0
  then show ?case by simp
next
  case (Suc n)
  show ?case
  proof (cases "start_step (p, c)")
    case None
    with Suc.prems show ?thesis by simp
  next
    case (Some s)
    obtain p1 c1 where s: "s = (p1, c1)" by (cases s)
    from start_step_counted [of p c p1 c1] Some s Suc.prems
    have "length (message_queue c1) \<le> unfinished_tasks c1" by simp
    from Suc.IH [OF this, of p1] Some s show ?thesis by simp
  qed
qed

lemma prefix_same_length:
  "prefix xs ys \<or> prefix ys xs \<Longrightarrow> length xs = length ys \<Longrightarrow> xs = ys"
  by (auto simp: prefix_def)

section \<open>Routing one message\<close>

text \<open>
  Claim C1. For a message whose receiver is registered: if the agent's \<open>process\<close> returns
  \<open>r\<close> and the context maps \<open>requires_response\<close> to \<open>True\<close>, \<open>route_message\<close> returns
  normally and its only effects are the calls it logs and one call of \<open>send_message\<close>,
  which appends to the queue the reply with sender and receiver swapped, content \<open>r\<close>,
  type \<open>response\<close> and the context of the message. If \<open>requires_response\<close> is \<open>False\<close> or
  absent, the queue is left as it was and \<open>send_message\<close> is not called.
\<close>

theorem route_message_response:
  assumes "map_of (agents c) (receiver m) = Some a"
  shows "(process a (content m) = Inr r
            \<and> msg_context m ''requires_response'' = Some (PBool True) \<longrightarrow>
            route_message m c =
              (Inr (),
               c\<lparr>message_queue := message_queue c @
                    [\<lparr>sender = receiver m, receiver = sender m, content = r,
                      message_type = ''response'', msg_context = msg_context m\<rparr>],
                 unfinished_tasks := Suc (unfinished_tasks c),
                 trace := trace c @
                    [Route m, Process a (content m),
                     Send \<lparr>sender = receiver m, receiver = sender m, content = r,
                           message_type = ''response'', msg_context = msg_context m\<rparr>]\<rparr>))
         \<and> (msg_context m ''requires_response'' = Some (PBool False)
              \<or> msg_context m ''requires_response'' = None \<longrightarrow>
            message_queue (snd (route_message m c)) = message_queue c
            \<and> sent (trace (snd (route_message m c))) = sent (trace c))"
  using assms
  by (auto simp: route_message_def send_message_def response_def dict_get_def Let_def
      sent_append split: sum.splits)

theorem route_message_response_witness:
  "map_of (agents bus) (receiver (request ''echo'')) = Some echo_agent
   \<and> process echo_agent (content (request ''echo'')) = Inr (PStr ''hi'')
   \<and> msg_context (request ''echo'') ''requires_response'' = Some (PBool True)
   \<and> message_queue (snd (route_message (request ''echo'') bus)) =
       [\<lparr>sender = ''echo'', receiver = ''t'', content = PStr ''hi'', message_type = ''response'',
         msg_context = [''requires_response'' \<mapsto> PBool True]\<rparr>]
   \<and> map_of (agents bus) (receiver (notice ''echo'')) = Some echo_agent
   \<and> msg_context (notice ''echo'') ''requires_response'' = None
   \<and> message_queue (snd (route_message (notice ''echo'') bus)) = []"
proof -
  have reg: "map_of (agents bus) (receiver (request ''echo'')) = Some echo_agent"
    and reg': "map_of (agents bus) (receiver (notice ''echo'')) = Some echo_agent"
    by (simp_all add: bus_lookup request_def notice_def)
  have p: "process echo_agent (content (request ''echo'')) = Inr (PStr ''hi'')"
    by (simp add: echo_agent_def worker_def request_def)
  have t: "msg_context (request ''echo'') ''requires_response'' = Some (PBool True)"
    and f: "msg_context (notice ''echo'') ''requires_response'' = None"
    by (simp_all add: request_def notice_def)
  from route_message_response [OF reg, of "PStr ''hi''"] p t
  have "message_queue (snd (route_message (request ''echo'') bus)) =
      [\<lparr>sender = receiver (request ''echo''), receiver = sender (request ''echo''),
        content = PStr ''hi'', message_type = ''response'',
        msg_context = msg_context (request ''echo'')\<rparr>]"
    by (simp add: bus_fields)
  then have a: "message_queue (snd (route_message (request ''echo'') bus)) =
       [\<lparr>sender = ''echo'', receiver = ''t'', content = PStr ''hi'', message_type = ''response'',
         msg_context = [''requires_response'' \<mapsto> PBool True]\<rparr>]"
    by (simp add: request_def)
  from route_message_response [OF reg', of "PStr ''hi''"] f
  have b: "message_queue (snd (route_message (notice ''echo'') bus)) = []"
    by (simp add: bus_fields)
  from reg reg' p t f a b show ?thesis by blast
qed

text \<open>
  Claim C2, as amended. For a message whose receiver is registered, if the agent's \<open>process\<close>
  raises \<open>e\<close>: \<open>handle_error\<close> of that agent is called once, with \<open>e\<close>, and nothing else
  changes, so no reply is enqueued whatever the context says; and if that call of
  \<open>handle_error\<close> returns, \<open>route_message\<close> returns normally, and the loop, which took
  the message from a queue whose items were all counted by \<open>put\<close>, goes on to its next test
  of \<open>_running\<close>.
\<close>

theorem route_message_process_raises:
  assumes "map_of (agents c) (receiver m) = Some a"
    and "process a (content m) = Inl e"
  shows "snd (route_message m c) =
           c\<lparr>trace := trace c @ [Route m, Process a (content m), HandleError a e]\<rparr>
         \<and> (handle_error a e = Inr () \<longrightarrow>
              fst (route_message m c) = Inr ()
              \<and> (message_queue c = m # q \<and> length (message_queue c) \<le> unfinished_tasks c \<longrightarrow>
                   start_step (InGet, c) =
                     Some (LoopHead,
                       c\<lparr>message_queue := q, unfinished_tasks := unfinished_tasks c - 1,
                         trace := trace c @
                           [Route m, Process a (content m), HandleError a e]\<rparr>)))"
  using assms
  by (auto simp: route_message_def task_done_def Let_def split: sum.splits)

theorem route_message_process_raises_witness:
  "map_of (agents (send_message (request ''failing'') bus)) (receiver (request ''failing'')) =
     Some failing_agent
   \<and> process failing_agent (content (request ''failing'')) = Inl (Exception ''boom'')
   \<and> handle_error failing_agent (Exception ''boom'') = Inr ()
   \<and> message_queue (send_message (request ''failing'') bus) = [request ''failing'']
   \<and> length (message_queue (send_message (request ''failing'') bus)) \<le>
       unfinished_tasks (send_message (request ''failing'') bus)
   \<and> fst (route_message (request ''failing'') (send_message (request ''failing'') bus)) = Inr ()
   \<and> message_queue (snd (route_message (request ''failing'')
        (send_message (request ''failing'') bus))) = [request ''failing'']
   \<and> map_option fst (start_step (InGet, send_message (request ''failing'') bus)) = Some LoopHead"
proof -
  let ?m = "request ''failing''"
  let ?c = "send_message ?m bus"
  have reg: "map_of (agents ?c) (receiver ?m) = Some failing_agent"
    by (simp add: send_message_def bus_lookup request_def)
  have p: "process failing_agent (content ?m) = Inl (Exception ''boom'')"
    and h: "handle_error failing_agent (Exception ''boom'') = Inr ()"
    by (simp_all add: failing_agent_def)
  have q: "message_queue ?c = [?m]"
    and n: "length (message_queue ?c) \<le> unfinished_tasks ?c"
    by (simp_all add: send_message_def bus_fields)
  from route_message_process_raises [OF reg p, of "[]"] h q n
  have "fst (route_message ?m ?c) = Inr ()"
    and "message_queue (snd (route_message ?m ?c)) = [?m]"
    and "map_option fst (start_step (InGet, ?c)) = Some LoopHead"
    by simp_all
  with reg p h q n show ?thesis by blast
qed

text \<open>
  The claim without the condition on \<open>handle_error\<close> fails for \<open>broken_agent\<close>:
  \<open>process\<close> raises, \<open>handle_error\<close> raises, and the second exception leaves
  \<open>route_message\<close>.
\<close>

theorem route_message_handler_raises_counterexample:
  "map_of (agents bus) (receiver (request ''broken'')) = Some broken_agent
   \<and> process broken_agent (content (request ''broken'')) = Inl (Exception ''boom'')
   \<and> fst (route_message (request ''broken'') bus) = Inl (Exception ''handler failed'')
   \<and> fst (route_message (request ''broken'') bus) \<noteq> Inr ()"
  by (simp add: route_message_def Let_def bus_lookup request_def broken_agent_def)

text \<open>
  Claim C3. For a message whose receiver is not a key of \<open>agents\<close>, \<open>route_message\<close>
  returns normally and changes nothing but the log of calls, which gains the call itself
  and the line printed: the registry and the queue are as before and \<open>send_message\<close> is
  not called. The loop, which took the message from a queue whose items were all counted by
  \<open>put\<close>, drops it and goes on to its next test of \<open>_running\<close>.
\<close>

theorem route_message_unregistered:
  assumes "receiver m \<notin> fst ` set (agents c)"
  shows "route_message m c =
           (Inr (), c\<lparr>trace := trace c @
               [Route m, Print (''No agent found for receiver: '' @ receiver m)]\<rparr>)
         \<and> (message_queue c = m # q \<and> length (message_queue c) \<le> unfinished_tasks c \<longrightarrow>
              start_step (InGet, c) =
                Some (LoopHead,
                  c\<lparr>message_queue := q, unfinished_tasks := unfinished_tasks c - 1,
                    trace := trace c @
                      [Route m, Print (''No agent found for receiver: '' @ receiver m)]\<rparr>))"
proof -
  from assms have "map_of (agents c) (receiver m) = None"
    by (simp add: map_of_eq_None_iff)
  then show ?thesis
    by (auto simp: route_message_def task_done_def Let_def)
qed

theorem route_message_unregistered_witness:
  "receiver (request ''nobody'') \<notin> fst ` set (agents (send_message (request ''nobody'') bus))
   \<and> message_queue (send_message (request ''nobody'') bus) = [request ''nobody'']
   \<and> length (message_queue (send_message (request ''nobody'') bus)) \<le>
       unfinished_tasks (send_message (request ''nobody'') bus)
   \<and> fst (route_message (request ''nobody'') (send_message (request ''nobody'') bus)) = Inr ()
   \<and> agents (snd (route_message (request ''nobody'') (send_message (request ''nobody'') bus))) =
       agents bus
   \<and> message_queue (snd (route_message (request ''nobody'')
        (send_message (request ''nobody'') bus))) = [request ''nobody'']
   \<and> map_option fst (start_step (InGet, send_message (request ''nobody'') bus)) = Some LoopHead"
proof -
  let ?m = "request ''nobody''"
  let ?c = "send_message ?m bus"
  have reg: "receiver ?m \<notin> fst ` set (agents ?c)"
    by (simp add: send_message_def agents_bus request_def)
  have q: "message_queue ?c = [?m]"
    and n: "length (message_queue ?c) \<le> unfinished_tasks ?c"
    and ag: "agents ?c = agents bus"
    by (simp_all add: send_message_def bus_fields)
  from route_message_unregistered [OF reg, of "[]"] q n ag
  have "fst (route_message ?m ?c) = Inr ()"
    and "agents (snd (route_message ?m ?c)) = agents bus"
    and "message_queue (snd (route_message ?m ?c)) = [?m]"
    and "map_option fst (start_step (InGet, ?c)) = Some LoopHead"
    by simp_all
  with reg q n show ?thesis by blast
qed

text \<open>
  Claim C9. If the agent's \<open>process\<close> raises \<open>e\<close> and its \<open>handle_error\<close>, called with
  \<open>e\<close>, raises \<open>e'\<close>, then \<open>e'\<close> leaves \<open>route_message\<close>, and it leaves \<open>start\<close>: the
  loop that took the message from the queue ends with \<open>e'\<close>, without calling
  \<open>task_done\<close>, and takes no further step.
\<close>

theorem handle_error_raises_stops_loop:
  assumes "map_of (agents c) (receiver m) = Some a"
    and "process a (content m) = Inl e"
    and "handle_error a e = Inl e'"
  shows "route_message m c =
           (Inl e', c\<lparr>trace := trace c @ [Route m, Process a (content m), HandleError a e]\<rparr>)
         \<and> (message_queue c = m # q \<longrightarrow>
              start_step (InGet, c) =
                Some (Raised e',
                  c\<lparr>message_queue := q,
                    trace := trace c @ [Route m, Process a (content m), HandleError a e]\<rparr>))
         \<and> start_step (Raised e', c') = None
         \<and> run_start n (Raised e', c') = (Raised e', c')"
  using assms
  by (auto simp: route_message_def Let_def run_start_Raised)

theorem handle_error_raises_stops_loop_witness:
  "map_of (agents (send_message (notice ''broken'') bus)) (receiver (notice ''broken'')) =
     Some broken_agent
   \<and> process broken_agent (content (notice ''broken'')) = Inl (Exception ''boom'')
   \<and> handle_error broken_agent (Exception ''boom'') = Inl (Exception ''handler failed'')
   \<and> message_queue (send_message (notice ''broken'') bus) = [notice ''broken'']
   \<and> fst (route_message (notice ''broken'') (send_message (notice ''broken'') bus)) =
       Inl (Exception ''handler failed'')
   \<and> map_option fst (start_step (InGet, send_message (notice ''broken'') bus)) =
       Some (Raised (Exception ''handler failed''))"
proof -
  let ?m = "notice ''broken''"
  let ?c = "send_message ?m bus"
  have reg: "map_of (agents ?c) (receiver ?m) = Some broken_agent"
    by (simp add: send_message_def bus_lookup notice_def)
  have p: "process broken_agent (content ?m) = Inl (Exception ''boom'')"
    and h: "handle_error broken_agent (Exception ''boom'') = Inl (Exception ''handler failed'')"
    by (simp_all add: broken_agent_def)
  have q: "message_queue ?c = [?m]"
    by (simp add: send_message_def bus_fields)
  from handle_error_raises_stops_loop [OF reg p h, of "[]"] q
  have "fst (route_message ?m ?c) = Inl (Exception ''handler failed'')"
    and "map_option fst (start_step (InGet, ?c)) = Some (Raised (Exception ''handler failed''))"
    by simp_all
  with reg p h q show ?thesis by blast
qed

section \<open>The dispatch loop\<close>

text \<open>
  Claim C4 fails. A loop suspended in \<open>get\<close> on an empty queue is still suspended there
  after \<open>stop\<close>, however many steps it is given: it has not returned. On the example: the
  loop of \<open>bus\<close>, started, is suspended in \<open>get\<close> on the empty queue; after \<open>stop\<close>
  it stays there; once a message is sent, the loop routes it (the agent's \<open>process\<close> is
  called) and only then returns.
\<close>

theorem stop_while_idle_still_routes:
  "(\<forall>c n. run_start n (InGet, stop (c\<lparr>message_queue := []\<rparr>)) =
            (InGet, stop (c\<lparr>message_queue := []\<rparr>)))
   \<and> run_start 2 (Created, bus) = (InGet, bus\<lparr>running := True\<rparr>)
   \<and> message_queue (bus\<lparr>running := True\<rparr>) = []
   \<and> (\<forall>n. run_start n (InGet, stop (bus\<lparr>running := True\<rparr>)) =
          (InGet, stop (bus\<lparr>running := True\<rparr>)))
   \<and> run_start 2 (InGet, send_message (notice ''echo'') (stop (bus\<lparr>running := True\<rparr>))) =
       (Returned,
        bus\<lparr>trace := [Send (notice ''echo''), Route (notice ''echo''),
                        Process echo_agent (PStr ''hi'')]\<rparr>)"
proof -
  have g: "\<forall>c n. run_start n (InGet, stop (c\<lparr>message_queue := []\<rparr>)) =
            (InGet, stop (c\<lparr>message_queue := []\<rparr>))"
    by (simp add: run_start_InGet_empty stop_def)
  have a: "run_start 2 (Created, bus) = (InGet, bus\<lparr>running := True\<rparr>)"
    by (simp add: eval_nat_numeral)
  have b: "message_queue (bus\<lparr>running := True\<rparr>) = []"
    by (simp add: bus_fields)
  have c: "\<forall>n. run_start n (InGet, stop (bus\<lparr>running := True\<rparr>)) =
          (InGet, stop (bus\<lparr>running := True\<rparr>))"
    by (simp add: run_start_InGet_empty stop_def bus_fields)
  have d: "run_start 2 (InGet, send_message (notice ''echo'') (stop (bus\<lparr>running := True\<rparr>))) =
       (Returned,
        bus\<lparr>trace := [Send (notice ''echo''), Route (notice ''echo''),
                        Process echo_agent (PStr ''hi'')]\<rparr>)"
    by (simp add: eval_nat_numeral send_message_def stop_def route_message_def task_done_def
        Let_def bus_lookup bus_fields notice_def echo_agent_def worker_def dict_get_def)
  from g a b c d show ?thesis by blast
qed

text \<open>
  Claim C6. Let the messages \<open>ms\<close> be sent, in this order, and the loop then run from any
  point, for any number of steps. The messages it has routed since, in the order of the
  calls of \<open>route_message\<close>, are a prefix of the queue as the sends left it (what was
  queued before, then \<open>ms\<close>), or that whole queue followed by later messages. When
  \<open>start\<close> has run one round of the loop for each queued message and stands at the test of
  \<open>_running\<close> again, the messages routed are exactly that queue, in order.
\<close>

theorem dispatch_order_is_send_order:
  "(\<exists>d. routed (trace (snd (run_start n (p, fold send_message ms c)))) = routed (trace c) @ d
        \<and> (prefix d (message_queue c @ ms) \<or> prefix (message_queue c @ ms) d))
   \<and> (fst (run_start (1 + 2 * length (message_queue c @ ms))
              (Created, fold send_message ms c)) = LoopHead \<longrightarrow>
        routed (trace (snd (run_start (1 + 2 * length (message_queue c @ ms))
              (Created, fold send_message ms c)))) = routed (trace c) @ message_queue c @ ms)"
proof -
  let ?c1 = "fold send_message ms c"
  let ?q = "message_queue c @ ms"
  have "routed (map Send ms) = []"
    by (induction ms) simp_all
  then have q1: "message_queue ?c1 = ?q" and t1: "routed (trace ?c1) = routed (trace c)"
    by (simp_all add: fold_send_message routed_append)
  from run_start_fifo [of n p ?c1] q1 t1
  have a: "\<exists>d. routed (trace (snd (run_start n (p, ?c1)))) = routed (trace c) @ d
            \<and> (prefix d ?q \<or> prefix ?q d)"
    by simp
  have b: "routed (trace (snd (run_start (1 + 2 * length ?q) (Created, ?c1)))) =
      routed (trace c) @ ?q"
    if h: "fst (run_start (1 + 2 * length ?q) (Created, ?c1)) = LoopHead"
  proof -
    let ?c2 = "?c1\<lparr>running := True\<rparr>"
    obtain c' where c': "run_start (2 * length ?q) (LoopHead, ?c2) = (LoopHead, c')"
      using h by (cases "run_start (2 * length ?q) (LoopHead, ?c2)") simp
    from run_start_iterations [OF _ c']
    have len: "length (routed (trace c')) = length (routed (trace c)) + length ?q"
      using t1 by simp
    from run_start_fifo [of "2 * length ?q" LoopHead ?c2] c' q1 t1
    obtain d where d: "routed (trace c') = routed (trace c) @ d"
      and cmp: "prefix d ?q \<or> prefix ?q d"
      by auto
    from len d have "length d = length ?q" by simp
    with cmp have "d = ?q"
      by (rule prefix_same_length)
    with d c' show ?thesis by simp
  qed
  from a b show ?thesis by blast
qed

theorem dispatch_order_is_send_order_witness:
  "fst (run_start 7 (Created,
        fold send_message [request ''echo'', notice ''failing'', notice ''nobody''] bus)) = LoopHead
   \<and> routed (trace (snd (run_start 7 (Created,
        fold send_message [request ''echo'', notice ''failing'', notice ''nobody''] bus)))) =
       [request ''echo'', notice ''failing'', notice ''nobody'']"
proof -
  let ?ms = "[request ''echo'', notice ''failing'', notice ''nobody'']"
  have seven: "1 + 2 * length (message_queue bus @ ?ms) = 7"
    by (simp add: bus_fields)
  have pc: "fst (run_start 7 (Created, fold send_message ?ms bus)) = LoopHead"
    by (simp add: eval_nat_numeral send_message_def route_message_def task_done_def Let_def
        bus_lookup bus_fields request_def notice_def echo_agent_def worker_def
        failing_agent_def dict_get_def response_def)
  from dispatch_order_is_send_order [of 0 Created ?ms bus] pc show ?thesis
    unfolding seven by (simp add: bus_fields)
qed

section \<open>The registry\<close>

text \<open>
  Claim C5. After any sequence of calls of \<open>register_agent\<close> on a new coordinator, the
  keys of \<open>agents\<close> are distinct, every name resolves to the agent of the last call under
  it, and there is one entry for each name registered and none for any other; the same
  holds of the dictionary that \<open>get_agent_capabilities\<close> returns, whose keys are distinct
  for every coordinator and whose entry for a name is what \<open>get_capabilities\<close> of that
  agent returns. In particular two agents registered under one name leave the one entry of
  the second. \<open>register_agent\<close> has no error to raise.
\<close>

theorem register_agent_last_write_wins:
  "distinct (map fst (agents (registered as)))
   \<and> distinct (map fst (get_agent_capabilities c))
   \<and> map_of (agents (registered as)) n = latest n as
   \<and> map_of (get_agent_capabilities (registered as)) n =
       map_option get_capabilities (latest n as)
   \<and> length (filter (\<lambda>p. fst p = n) (agents (registered as))) =
       (if n \<in> set (names_of as) then 1 else 0)
   \<and> length (filter (\<lambda>p. fst p = n) (get_agent_capabilities (registered as))) =
       (if n \<in> set (names_of as) then 1 else 0)
   \<and> (name (config a) = name (config b) \<longrightarrow>
        agents (registered [a, b]) = [(name (config b), b)]
        \<and> get_agent_capabilities (registered [a, b]) =
            [(name (config b), get_capabilities b)]
        \<and> latest (name (config b)) (as @ [a, b]) = Some b)"
proof -
  have d: "distinct (map fst (agents (registered as)))"
    by (rule distinct_keys_registered)
  have l: "map_of (agents (registered as)) n = latest n as"
    by (rule lookup_registered)
  have lc: "map_of (get_agent_capabilities (registered as)) n =
      map_option get_capabilities (latest n as)"
    by (simp add: lookup_capabilities [OF d] l)
  have n1: "length (filter (\<lambda>p. fst p = n) (agents (registered as))) =
      (if n \<in> set (names_of as) then 1 else 0)"
    by (simp add: count_entries [OF d] key_in_iff l latest_None)
  have n2: "length (filter (\<lambda>p. fst p = n) (get_agent_capabilities (registered as))) =
      (if n \<in> set (names_of as) then 1 else 0)"
    by (simp add: count_entries [OF keys_capabilities] key_in_iff lc latest_None)
  have two: "name (config a) = name (config b) \<longrightarrow>
        agents (registered [a, b]) = [(name (config b), b)]
        \<and> get_agent_capabilities (registered [a, b]) =
            [(name (config b), get_capabilities b)]
        \<and> latest (name (config b)) (as @ [a, b]) = Some b"
    by (simp add: registered_def register_agent_def AgentCoordinator_init_def
        get_agent_capabilities_def latest_def)
  from d keys_capabilities l lc n1 n2 two show ?thesis by blast
qed

theorem register_agent_last_write_wins_witness:
  "name (config (worker ''a'' [''x''])) = name (config (overriding ''a'' [''y''] [''z'']))
   \<and> agents (registered [worker ''a'' [''x''], overriding ''a'' [''y''] [''z'']]) =
       [(''a'', overriding ''a'' [''y''] [''z''])]
   \<and> get_agent_capabilities (registered [worker ''a'' [''x''], overriding ''a'' [''y''] [''z'']]) =
       [(''a'', [''z''])]"
  using register_agent_last_write_wins [of "[]" AgentCoordinator_init "''a''"
      "worker ''a'' [''x'']" "overriding ''a'' [''y''] [''z'']"]
  by (simp add: worker_name overriding_fields)

text \<open>
  Claim C7, as amended. \<open>delegate_task\<close> returns the first agent, in the iteration order
  of \<open>agents\<close>, whose \<open>get_capabilities\<close> lists the tag, and none exactly when no
  registered agent's does. After a sequence of calls of \<open>register_agent\<close> on a new
  coordinator, that order is: the names in the order in which each was first registered,
  each with the agent registered last under it. When the names registered are pairwise
  distinct, this is the first agent in registration order that lists the tag.
\<close>

theorem delegate_task_first_in_iteration_order:
  "fst (delegate_task task tag c) =
     List.find (\<lambda>a. tag \<in> set (get_capabilities a)) (map snd (agents c))
   \<and> map snd (agents (registered as)) =
       List.map_filter (\<lambda>n. latest n as) (first_registered (names_of as))
   \<and> (distinct (names_of as) \<longrightarrow>
        fst (delegate_task task tag (registered as)) =
          List.find (\<lambda>a. tag \<in> set (get_capabilities a)) as)
   \<and> ((fst (delegate_task task tag c) = None) =
        (\<forall>a \<in> snd ` set (agents c). tag \<notin> set (get_capabilities a)))"
proof -
  have vals: "map snd (agents (registered as)) =
      List.map_filter (\<lambda>n. latest n as) (first_registered (names_of as))"
    using values_of_distinct [OF distinct_keys_registered, of as]
    by (simp add: keys_registered lookup_registered [abs_def])
  have "distinct (names_of as) \<longrightarrow> map snd (agents (registered as)) = as"
    by (simp add: vals first_registered_distinct latest_distinct)
  then have dist: "distinct (names_of as) \<longrightarrow>
        fst (delegate_task task tag (registered as)) =
          List.find (\<lambda>a. tag \<in> set (get_capabilities a)) as"
    by (simp add: delegate_task_def first_capable_find)
  have fnd: "fst (delegate_task task tag c) =
     List.find (\<lambda>a. tag \<in> set (get_capabilities a)) (map snd (agents c))"
    by (simp add: delegate_task_def first_capable_find)
  have none: "(fst (delegate_task task tag c) = None) =
        (\<forall>a \<in> snd ` set (agents c). tag \<notin> set (get_capabilities a))"
    by (simp add: delegate_task_def first_capable_None)
  from fnd vals dist none show ?thesis by blast
qed

text \<open>
  In the example the second agent is configured with the capability \<open>x\<close> and overrides
  \<open>get_capabilities\<close> with a list without it: the lookup of \<open>x\<close> passes it by, and the
  lookup of \<open>own\<close> finds it.
\<close>

theorem delegate_task_first_in_iteration_order_witness:
  "distinct (names_of
      [worker ''a'' [], overriding ''d'' [''x''] [''own''], worker ''b'' [''x''],
       worker ''c'' [''x'']])
   \<and> fst (delegate_task PNone ''x''
        (registered [worker ''a'' [], overriding ''d'' [''x''] [''own''], worker ''b'' [''x''],
           worker ''c'' [''x'']])) =
      Some (worker ''b'' [''x''])
   \<and> fst (delegate_task PNone ''own''
        (registered [worker ''a'' [], overriding ''d'' [''x''] [''own''], worker ''b'' [''x''],
           worker ''c'' [''x'']])) =
      Some (overriding ''d'' [''x''] [''own''])
   \<and> fst (delegate_task PNone ''z''
        (registered [worker ''a'' [], overriding ''d'' [''x''] [''own''], worker ''b'' [''x''],
           worker ''c'' [''x'']])) = None"
proof -
  let ?as = "[worker ''a'' [], overriding ''d'' [''x''] [''own''], worker ''b'' [''x''],
    worker ''c'' [''x'']]"
  have d: "distinct (names_of ?as)"
    by (simp add: names_of_def worker_name overriding_fields)
  from delegate_task_first_in_iteration_order [of PNone "''x''" "registered ?as" ?as] d
  have "fst (delegate_task PNone ''x'' (registered ?as)) =
      List.find (\<lambda>a. ''x'' \<in> set (get_capabilities a)) ?as"
    by blast
  then have x: "fst (delegate_task PNone ''x'' (registered ?as)) = Some (worker ''b'' [''x''])"
    by (simp add: worker_capabilities overriding_fields)
  from delegate_task_first_in_iteration_order [of PNone "''own''" "registered ?as" ?as] d
  have "fst (delegate_task PNone ''own'' (registered ?as)) =
      List.find (\<lambda>a. ''own'' \<in> set (get_capabilities a)) ?as"
    by blast
  then have o: "fst (delegate_task PNone ''own'' (registered ?as)) =
      Some (overriding ''d'' [''x''] [''own''])"
    by (simp add: worker_capabilities overriding_fields)
  from delegate_task_first_in_iteration_order [of PNone "''z''" "registered ?as" ?as] d
  have "fst (delegate_task PNone ''z'' (registered ?as)) =
      List.find (\<lambda>a. ''z'' \<in> set (get_capabilities a)) ?as"
    by blast
  then have z: "fst (delegate_task PNone ''z'' (registered ?as)) = None"
    by (simp add: worker_capabilities overriding_fields)
  from d x o z show ?thesis by blast
qed

text \<open>
  Registration order and iteration order differ once a name is registered again. After
  the calls for \<open>a\<close> (no capability), \<open>b\<close> (lists \<open>x\<close>) and \<open>a\<close> again (lists \<open>x\<close>),
  the agents registered are \<open>b\<close> and the second \<open>a\<close>, registered in this order, and
  \<open>delegate_task\<close> returns the second \<open>a\<close>, which stands where the first stood.
\<close>

theorem delegate_task_reregistered_name_counterexample:
  "survivors [worker ''a'' [], worker ''b'' [''x''], worker ''a'' [''x'']] =
     [worker ''b'' [''x''], worker ''a'' [''x'']]
   \<and> first_capable ''x'' (survivors [worker ''a'' [], worker ''b'' [''x''], worker ''a'' [''x'']]) =
       Some (worker ''b'' [''x''])
   \<and> fst (delegate_task PNone ''x''
        (registered [worker ''a'' [], worker ''b'' [''x''], worker ''a'' [''x'']])) =
       Some (worker ''a'' [''x''])
   \<and> worker ''a'' [''x''] \<noteq> worker ''b'' [''x'']"
  by (simp add: names_of_def worker_def registered_def register_agent_def
      AgentCoordinator_init_def delegate_task_def BaseAgent_get_capabilities_def)

text \<open>
  Claim C10. The result of \<open>delegate_task\<close> is the same for any two tasks, and the
  coordinator is left as it was.
\<close>

theorem delegate_task_ignores_task:
  "delegate_task t1 task_type c = delegate_task t2 task_type c
   \<and> snd (delegate_task t1 task_type c) = c"
  by (simp add: delegate_task_def)

section \<open>Workflows\<close>

text \<open>
  Claim C8. \<open>execute\<close> calls \<open>send_message\<close> once for each step, in the order of the
  list, and nothing else: the queue gains the steps in order, no message is routed and no
  agent is called. It returns \<open>results\<close>, which is empty for a workflow made by
  \<open>Workflow(coordinator)\<close> and calls of \<open>add_step\<close>, whose steps are the messages added,
  in order. For three steps these are three calls of \<open>send_message\<close>.
\<close>

theorem execute_sends_steps_in_order:
  "execute w c =
     (results w,
      c\<lparr>message_queue := message_queue c @ steps w,
        unfinished_tasks := unfinished_tasks c + length (steps w),
        trace := trace c @ map Send (steps w)\<rparr>)
   \<and> steps (fold add_step ms Workflow_init) = ms
   \<and> fst (execute (fold add_step ms Workflow_init) c) = []
   \<and> trace (snd (execute (add_step m3 (add_step m2 (add_step m1 Workflow_init)))
        AgentCoordinator_init)) = [Send m1, Send m2, Send m3]"
  by (simp add: execute_def fold_send_message fold_add_step Workflow_init_def add_step_def
      AgentCoordinator_init_def send_message_def)

end
